theory Spec2Isabelle
  imports Main
begin

section \<open>Board representation\<close>

text \<open>
  The program keeps a board as a list of eight rows, each a list of eight integers:
  0 is an empty square, 1 a red man, 2 a black man, 3 a red king, 4 a black king.
  A move is a pair of (row, column) coordinates. Python integers are unbounded, so
  cells and coordinates are \<^typ>\<open>int\<close>.
\<close>

type_synonym board = "int list list"
type_synonym pos = "int \<times> int"
type_synonym move = "pos \<times> pos"

datatype error = IndexError | RecursionError

definition rbind :: "error + 'a \<Rightarrow> ('a \<Rightarrow> error + 'b) \<Rightarrow> error + 'b" where
  "rbind m f = (case m of Inl e \<Rightarrow> Inl e | Inr x \<Rightarrow> f x)"

text \<open>
  List subscription as Python does it: an index from \<open>-len\<close> to \<open>-1\<close> counts from the
  end, anything outside \<open>-len .. len - 1\<close> raises IndexError.
\<close>

definition py_index :: "nat \<Rightarrow> int \<Rightarrow> nat option" where
  "py_index n i =
     (if 0 \<le> i \<and> i < int n then Some (nat i)
      else if - int n \<le> i \<and> i < 0 then Some (nat (int n + i))
      else None)"

definition py_get :: "'a list \<Rightarrow> int \<Rightarrow> error + 'a" where
  "py_get xs i =
     (case py_index (length xs) i of None \<Rightarrow> Inl IndexError | Some k \<Rightarrow> Inr (xs ! k))"

definition py_set :: "'a list \<Rightarrow> int \<Rightarrow> 'a \<Rightarrow> error + 'a list" where
  "py_set xs i v =
     (case py_index (length xs) i of None \<Rightarrow> Inl IndexError | Some k \<Rightarrow> Inr (xs[k := v]))"

text \<open>\<open>board[r][c]\<close> and \<open>board[r][c] = v\<close> on a board whose rows are not shared.\<close>

definition board_get :: "board \<Rightarrow> int \<Rightarrow> int \<Rightarrow> error + int" where
  "board_get b r c = rbind (py_get b r) (\<lambda>row. py_get row c)"

definition board_set :: "board \<Rightarrow> int \<Rightarrow> int \<Rightarrow> int \<Rightarrow> error + board" where
  "board_set b r c v =
     rbind (py_get b r) (\<lambda>row. rbind (py_set row c v) (\<lambda>row'. py_set b r row'))"

definition initial_board :: board where
  "initial_board =
    [[3,0,0,0,0,0,0,0],
     [0,0,0,0,0,0,0,3],
     [3,0,3,0,3,0,0,0],
     [0,0,0,0,0,0,0,4],
     [0,0,4,0,4,0,0,0],
     [0,0,0,0,0,0,0,0],
     [0,0,0,0,0,0,0,0],
     [0,0,0,0,0,0,0,0]]"

section \<open>Move generation\<close>

definition same_color :: "int \<Rightarrow> int \<Rightarrow> bool" where
  "same_color piece_a piece_b =
     (if (piece_a = 1 \<or> piece_a = 3) \<and> (piece_b = 1 \<or> piece_b = 3) then True
      else if (piece_a = 2 \<or> piece_a = 4) \<and> (piece_b = 2 \<or> piece_b = 4) then True
      else False)"

definition direction :: "int \<Rightarrow> (int \<times> int) list" where
  "direction piece =
     (if piece = 1 then [(-1, -1), (-1, 1)]
      else if piece = 2 then [(1, -1), (1, 1)]
      else if piece = 3 then [(-1, -1), (-1, 1), (1, -1), (1, 1)]
      else if piece = 4 then [(-1, -1), (-1, 1), (1, -1), (1, 1)]
      else [])"

text \<open>
  One pass of the loop body of \<open>possible_moves_for_piece\<close> for the direction
  \<open>(dr, dc)\<close>: the moves it appends. The conjunctions are evaluated left to right and
  stop at the first false conjunct, so a square is read only after its range test.
\<close>

definition step_ok :: "board \<Rightarrow> int \<Rightarrow> int \<Rightarrow> error + bool" where
  "step_ok b new_r new_c =
     (if 0 \<le> new_r \<and> new_r < 8 \<and> 0 \<le> new_c \<and> new_c < 8
      then rbind (board_get b new_r new_c) (\<lambda>p. Inr (p = 0))
      else Inr False)"

definition jump_ok :: "board \<Rightarrow> int \<Rightarrow> int \<Rightarrow> int \<Rightarrow> int \<Rightarrow> int \<Rightarrow> error + bool" where
  "jump_ok b piece new_r new_c jump_r jump_c =
     (if 0 \<le> jump_r \<and> jump_r < 8 \<and> 0 \<le> jump_c \<and> jump_c < 8
      then rbind (board_get b new_r new_c) (\<lambda>mid.
             if mid \<noteq> 0
             then rbind (board_get b jump_r jump_c) (\<lambda>land.
                    if land = 0 then Inr (\<not> same_color piece mid) else Inr False)
             else Inr False)
      else Inr False)"

definition direction_moves :: "board \<Rightarrow> int \<Rightarrow> int \<Rightarrow> int \<Rightarrow> int \<times> int \<Rightarrow> error + move list" where
  "direction_moves b r c piece d =
     (case d of (dr, dc) \<Rightarrow>
        let new_r = r + dr; new_c = c + dc; jump_r = r + 2 * dr; jump_c = c + 2 * dc in
        rbind (step_ok b new_r new_c) (\<lambda>step.
        rbind (jump_ok b piece new_r new_c jump_r jump_c) (\<lambda>jump.
          Inr ((if step then [((r, c), (new_r, new_c))] else []) @
               (if jump then [((r, c), (jump_r, jump_c))] else [])))))"

fun direction_loop :: "board \<Rightarrow> int \<Rightarrow> int \<Rightarrow> int \<Rightarrow> (int \<times> int) list \<Rightarrow> move list \<Rightarrow> error + move list" where
  "direction_loop b r c piece [] moves = Inr moves"
| "direction_loop b r c piece (d # ds) moves =
     rbind (direction_moves b r c piece d) (\<lambda>ms. direction_loop b r c piece ds (moves @ ms))"

definition possible_moves_for_piece :: "board \<Rightarrow> int \<Rightarrow> int \<Rightarrow> error + move list" where
  "possible_moves_for_piece b r c =
     rbind (board_get b r c) (\<lambda>piece. direction_loop b r c piece (direction piece) [])"

text \<open>The squares in the order of the two nested \<open>range(8)\<close> loops.\<close>

definition squares :: "pos list" where
  "squares = concat (map (\<lambda>r. map (\<lambda>c. (r, c)) [0..7]) [0..7])"

fun square_loop :: "board \<Rightarrow> string \<Rightarrow> pos list \<Rightarrow> move list \<Rightarrow> error + move list" where
  "square_loop b side [] moves = Inr moves"
| "square_loop b side ((r, c) # ps) moves =
     rbind (board_get b r c) (\<lambda>piece.
       if side = ''red'' \<and> (piece = 1 \<or> piece = 3)
       then rbind (possible_moves_for_piece b r c) (\<lambda>ms. square_loop b side ps (moves @ ms))
       else if side = ''black'' \<and> (piece = 2 \<or> piece = 4)
       then rbind (possible_moves_for_piece b r c) (\<lambda>ms. square_loop b side ps (moves @ ms))
       else square_loop b side ps moves)"

definition get_all_moves :: "board \<Rightarrow> string \<Rightarrow> error + move list" where
  "get_all_moves b side = square_loop b side squares []"

section \<open>Applying a move\<close>

text \<open>
  \<open>apply_move\<close> works on a copy of the board made row by row, so the assignments below
  act on a value of its own. \<open>//\<close> is floor division, as \<open>div\<close> on \<^typ>\<open>int\<close>.
\<close>

definition apply_move :: "board \<Rightarrow> move \<Rightarrow> error + board" where
  "apply_move b mv =
     (case mv of ((r1, c1), (r2, c2)) \<Rightarrow>
        rbind (board_get b r1 c1) (\<lambda>piece.
        rbind (board_set b r1 c1 0) (\<lambda>b1.
        rbind (board_set b1 r2 c2 piece) (\<lambda>b2.
        rbind (if \<bar>r2 - r1\<bar> = 2
               then board_set b2 ((r1 + r2) div 2) ((c1 + c2) div 2) 0
               else Inr b2) (\<lambda>b3.
          if piece = 1 \<and> r2 = 0 then board_set b3 r2 c2 3
          else if piece = 2 \<and> r2 = 7 then board_set b3 r2 c2 4
          else Inr b3)))))"

section \<open>Evaluation\<close>

definition piece_value :: "int \<Rightarrow> int" where
  "piece_value p =
     (if p = 1 then 5 else if p = 3 then 8 else if p = 2 then - 5 else if p = 4 then - 8 else 0)"

fun evaluate_loop :: "board \<Rightarrow> pos list \<Rightarrow> int \<Rightarrow> error + int" where
  "evaluate_loop b [] score = Inr score"
| "evaluate_loop b ((r, c) # ps) score =
     rbind (board_get b r c) (\<lambda>p. evaluate_loop b ps (score + piece_value p))"

definition evaluate :: "board \<Rightarrow> error + int" where
  "evaluate b = evaluate_loop b squares 0"

section \<open>Alpha-beta search\<close>

text \<open>
  A score is an integer or one of the two floating-point infinities; Python compares an
  integer with an infinity exactly, so the order is the one of the extended integers.
\<close>

datatype score = NegInf | Fin int | PosInf

instantiation score :: linorder
begin

fun less_eq_score :: "score \<Rightarrow> score \<Rightarrow> bool" where
  "less_eq_score NegInf _ = True"
| "less_eq_score _ PosInf = True"
| "less_eq_score (Fin a) (Fin b) = (a \<le> b)"
| "less_eq_score _ _ = False"

definition less_score :: "score \<Rightarrow> score \<Rightarrow> bool" where
  "less_score x y = (x \<le> y \<and> \<not> y \<le> x)"

instance
proof
  fix x y z :: score
  show "(x < y) = (x \<le> y \<and> \<not> y \<le> x)" by (simp add: less_score_def)
  show "x \<le> x" by (cases x) simp_all
  show "x \<le> y \<Longrightarrow> y \<le> z \<Longrightarrow> x \<le> z" by (cases x; cases y; cases z) simp_all
  show "x \<le> y \<Longrightarrow> y \<le> x \<Longrightarrow> x = y" by (cases x; cases y) simp_all
  show "x \<le> y \<or> y \<le> x" by (cases x; cases y) auto
qed

end

type_synonym result = "score \<times> move option"

text \<open>
  The two \<open>for mv in moves\<close> loops of \<open>alpha_beta\<close>, with the recursive call passed in as
  \<open>search\<close>. The loop state is \<open>alpha\<close> (or \<open>beta\<close>), \<open>value\<close> and \<open>best_move\<close>; \<open>break\<close>
  leaves the loop with the state reached.
\<close>

fun max_loop :: "(board \<Rightarrow> score \<Rightarrow> score \<Rightarrow> error + result) \<Rightarrow> board \<Rightarrow> move list \<Rightarrow>
    score \<Rightarrow> score \<Rightarrow> score \<Rightarrow> move option \<Rightarrow> error + result" where
  "max_loop search b [] alpha beta val best_move = Inr (val, best_move)"
| "max_loop search b (mv # mvs) alpha beta val best_move =
     rbind (apply_move b mv) (\<lambda>new_b.
     rbind (search new_b alpha beta) (\<lambda>(child_val, _).
       let val' = (if child_val > val then child_val else val);
           best_move' = (if child_val > val then Some mv else best_move);
           alpha' = max alpha val'
       in if alpha' \<ge> beta then Inr (val', best_move')
          else max_loop search b mvs alpha' beta val' best_move'))"

fun min_loop :: "(board \<Rightarrow> score \<Rightarrow> score \<Rightarrow> error + result) \<Rightarrow> board \<Rightarrow> move list \<Rightarrow>
    score \<Rightarrow> score \<Rightarrow> score \<Rightarrow> move option \<Rightarrow> error + result" where
  "min_loop search b [] alpha beta val best_move = Inr (val, best_move)"
| "min_loop search b (mv # mvs) alpha beta val best_move =
     rbind (apply_move b mv) (\<lambda>new_b.
     rbind (search new_b alpha beta) (\<lambda>(child_val, _).
       let val' = (if child_val < val then child_val else val);
           best_move' = (if child_val < val then Some mv else best_move);
           beta' = min beta val'
       in if beta' \<le> alpha then Inr (val', best_move')
          else min_loop search b mvs alpha beta' val' best_move'))"

text \<open>
  The search itself. Its first argument bounds the nesting of calls: the interpreter
  raises RecursionError when the call stack is exhausted, which is all a search that
  never reaches depth 0 can do. \<open>depth\<close> is the Python integer and is tested with
  \<open>depth == 0\<close> only.
\<close>

fun alpha_beta :: "nat \<Rightarrow> board \<Rightarrow> int \<Rightarrow> score \<Rightarrow> score \<Rightarrow> bool \<Rightarrow> error + result" where
  "alpha_beta 0 b depth alpha beta maximizing_player = Inl RecursionError"
| "alpha_beta (Suc fuel) b depth alpha beta maximizing_player =
     (if depth = 0 then rbind (evaluate b) (\<lambda>s. Inr (Fin s, None))
      else
        rbind (get_all_moves b (if maximizing_player then ''red'' else ''black'')) (\<lambda>moves.
          if moves = []
          then Inr (if maximizing_player then NegInf else PosInf, None)
          else if maximizing_player
          then max_loop (\<lambda>new_b a be. alpha_beta fuel new_b (depth - 1) a be False)
                 b moves alpha beta NegInf None
          else min_loop (\<lambda>new_b a be. alpha_beta fuel new_b (depth - 1) a be True)
                 b moves alpha beta PosInf None))"

definition find_best_move :: "nat \<Rightarrow> board \<Rightarrow> string \<Rightarrow> int \<Rightarrow> error + move option" where
  "find_best_move fuel b side depth =
     rbind (alpha_beta fuel b depth NegInf PosInf (side = ''red'')) (\<lambda>(_, mv). Inr mv)"

section \<open>Well-formed boards and legal moves\<close>

text \<open>
  The notions the specification uses to talk about boards: the 8 by 8 shape, the five
  cell tags, squares on the board, the tag at a square, and legality of a step and of a
  jump from a square in a diagonal direction.
\<close>

definition board_shape :: "board \<Rightarrow> bool" where
  "board_shape b \<longleftrightarrow> length b = 8 \<and> (\<forall>row \<in> set b. length row = 8)"

definition valid_cells :: "board \<Rightarrow> bool" where
  "valid_cells b \<longleftrightarrow> (\<forall>row \<in> set b. \<forall>p \<in> set row. 0 \<le> p \<and> p \<le> 4)"

definition on_board :: "pos \<Rightarrow> bool" where
  "on_board p \<longleftrightarrow> 0 \<le> fst p \<and> fst p < 8 \<and> 0 \<le> snd p \<and> snd p < 8"

definition cell :: "board \<Rightarrow> pos \<Rightarrow> int" where
  "cell b p = b ! nat (fst p) ! nat (snd p)"

definition set_cell :: "board \<Rightarrow> pos \<Rightarrow> int \<Rightarrow> board" where
  "set_cell b p v = b[nat (fst p) := (b ! nat (fst p))[nat (snd p) := v]]"

definition crown :: "int \<Rightarrow> int \<Rightarrow> int" where
  "crown piece r2 = (if piece = 1 \<and> r2 = 0 then 3 else if piece = 2 \<and> r2 = 7 then 4 else piece)"

definition midpoint :: "pos \<Rightarrow> pos \<Rightarrow> pos" where
  "midpoint p q = ((fst p + fst q) div 2, (snd p + snd q) div 2)"

definition diagonals :: "(int \<times> int) set" where
  "diagonals = {(-1, -1), (-1, 1), (1, -1), (1, 1)}"

definition shift :: "pos \<Rightarrow> int \<Rightarrow> int \<times> int \<Rightarrow> pos" where
  "shift p k d = (fst p + k * fst d, snd p + k * snd d)"

definition friendly :: "string \<Rightarrow> int \<Rightarrow> bool" where
  "friendly side p \<longleftrightarrow> side = ''red'' \<and> (p = 1 \<or> p = 3) \<or> side = ''black'' \<and> (p = 2 \<or> p = 4)"

definition opposing :: "string \<Rightarrow> int \<Rightarrow> bool" where
  "opposing side p \<longleftrightarrow> side = ''red'' \<and> (p = 2 \<or> p = 4) \<or> side = ''black'' \<and> (p = 1 \<or> p = 3)"

definition direction_set :: "int \<Rightarrow> (int \<times> int) set" where
  "direction_set p =
     (if p = 1 then {(-1, -1), (-1, 1)}
      else if p = 2 then {(1, -1), (1, 1)}
      else if p = 3 \<or> p = 4 then {(-1, -1), (-1, 1), (1, -1), (1, 1)}
      else {})"

definition step_legal :: "board \<Rightarrow> pos \<Rightarrow> int \<times> int \<Rightarrow> bool" where
  "step_legal b p d \<longleftrightarrow> on_board (shift p 1 d) \<and> cell b (shift p 1 d) = 0"

definition jump_legal :: "board \<Rightarrow> int \<Rightarrow> pos \<Rightarrow> int \<times> int \<Rightarrow> bool" where
  "jump_legal b piece p d \<longleftrightarrow>
     on_board (shift p 1 d) \<and> cell b (shift p 1 d) \<noteq> 0 \<and>
     \<not> same_color piece (cell b (shift p 1 d)) \<and>
     on_board (shift p 2 d) \<and> cell b (shift p 2 d) = 0"

definition moves_in_direction :: "board \<Rightarrow> int \<Rightarrow> pos \<Rightarrow> int \<times> int \<Rightarrow> move set" where
  "moves_in_direction b piece p d =
     {mv. step_legal b p d \<and> mv = (p, shift p 1 d)} \<union>
     {mv. jump_legal b piece p d \<and> mv = (p, shift p 2 d)}"

definition moves_from :: "board \<Rightarrow> pos \<Rightarrow> move set" where
  "moves_from b p = (\<Union>d \<in> direction_set (cell b p). moves_in_direction b (cell b p) p d)"

text \<open>Example positions: a red man that can jump a black man, and a red man one step from row 0.\<close>

definition capture_board :: board where
  "capture_board =
    [[0,0,0,0,0,0,0,0],
     [0,0,0,0,0,0,0,0],
     [0,0,2,0,0,0,0,0],
     [0,0,0,1,0,0,0,0],
     [0,0,0,0,0,0,0,0],
     [0,0,0,0,0,0,0,0],
     [0,0,0,0,0,0,0,0],
     [0,0,0,0,0,0,0,0]]"

definition crowning_board :: board where
  "crowning_board =
    [[0,0,0,0,0,0,0,0],
     [0,1,0,0,0,0,0,0],
     [0,0,0,0,0,0,0,0],
     [0,0,0,0,0,0,0,0],
     [0,0,0,0,0,0,0,0],
     [0,0,0,0,0,0,0,0],
     [0,0,0,0,0,2,0,0],
     [0,0,0,0,0,0,0,0]]"

text \<open>
  Further example positions: the empty board, a board of 64 red kings, and a position
  where Red's only move is answered by a capture that leaves Red without pieces.
\<close>

definition empty_board :: board where
  "empty_board = replicate 8 (replicate 8 0)"

definition kings_board :: board where
  "kings_board = replicate 8 (replicate 8 3)"

definition trap_board :: board where
  "trap_board =
    [[0,0,0,0,0,0,0,0],
     [2,0,0,0,0,0,0,0],
     [0,0,0,0,0,0,0,0],
     [1,0,0,0,0,0,0,0],
     [0,0,0,0,0,0,0,0],
     [0,0,0,0,0,0,0,0],
     [0,0,0,0,0,0,0,0],
     [0,0,0,0,0,0,0,0]]"

text \<open>A position holding men and a king of Red and a man of Black.\<close>

definition mixed_board :: board where
  "mixed_board =
    [[0,0,0,0,0,0,0,0],
     [0,0,2,0,0,0,0,0],
     [0,0,0,0,0,0,0,0],
     [0,0,0,0,3,0,0,0],
     [0,0,0,0,0,0,0,0],
     [0,1,0,0,0,1,0,0],
     [0,0,0,0,0,0,0,0],
     [0,0,0,0,0,0,0,0]]"

text \<open>The material sum of a board and the number of pieces of each side.\<close>

definition material :: "board \<Rightarrow> int" where
  "material b = sum_list (map (\<lambda>p. piece_value (cell b p)) squares)"

definition red_count :: "board \<Rightarrow> nat" where
  "red_count b = length (filter (\<lambda>p. cell b p = 1 \<or> cell b p = 3) squares)"

definition black_count :: "board \<Rightarrow> nat" where
  "black_count b = length (filter (\<lambda>p. cell b p = 2 \<or> cell b p = 4) squares)"

definition occupied :: "board \<Rightarrow> nat" where
  "occupied b = length (filter (\<lambda>p. cell b p \<noteq> 0) squares)"

section \<open>Basic facts\<close>

lemma rbind_Inr [simp]: "rbind (Inr x) f = f x"
  by (simp add: rbind_def)

lemma rbind_Inl [simp]: "rbind (Inl e) f = Inl e"
  by (simp add: rbind_def)

lemma shape_row: "board_shape b \<Longrightarrow> 0 \<le> r \<Longrightarrow> r < 8 \<Longrightarrow> length (b ! nat r) = 8"
  by (simp add: board_shape_def)

lemma board_get_shape:
  "board_shape b \<Longrightarrow> on_board (r, c) \<Longrightarrow> board_get b r c = Inr (cell b (r, c))"
  by (simp add: board_get_def py_get_def py_index_def cell_def on_board_def shape_row)
     (simp add: board_shape_def)

lemma board_set_shape:
  "board_shape b \<Longrightarrow> on_board (r, c) \<Longrightarrow> board_set b r c v = Inr (set_cell b (r, c) v)"
  by (simp add: board_set_def py_get_def py_set_def py_index_def set_cell_def on_board_def shape_row)
     (simp add: board_shape_def)

lemma shape_set_cell: "board_shape b \<Longrightarrow> on_board p \<Longrightarrow> board_shape (set_cell b p v)"
  by (auto simp: board_shape_def set_cell_def on_board_def dest!: set_update_subset_insert [THEN subsetD])

lemma cell_set_cell:
  "board_shape b \<Longrightarrow> on_board p \<Longrightarrow> on_board q \<Longrightarrow>
   cell (set_cell b p v) q = (if q = p then v else cell b q)"
  by (cases p; cases q)
     (auto simp: cell_def set_cell_def on_board_def board_shape_def nth_list_update)

lemma on_board_midpoint: "on_board p \<Longrightarrow> on_board q \<Longrightarrow> on_board (midpoint p q)"
  by (auto simp: on_board_def midpoint_def)

lemma midpoint_neq:
  "\<bar>fst q - fst p\<bar> = 2 \<Longrightarrow> midpoint p q \<noteq> p \<and> midpoint p q \<noteq> q"
  by (cases p; cases q) (auto simp: midpoint_def)

lemma board_get_at: "board_shape b \<Longrightarrow> on_board p \<Longrightarrow> board_get b (fst p) (snd p) = Inr (cell b p)"
  using board_get_shape [of b "fst p" "snd p"] by simp

lemma board_set_at:
  "board_shape b \<Longrightarrow> on_board p \<Longrightarrow> board_set b (fst p) (snd p) v = Inr (set_cell b p v)"
  using board_set_shape [of b "fst p" "snd p"] by simp

lemma apply_move_unfold:
  "apply_move b (p, q) =
     rbind (board_get b (fst p) (snd p)) (\<lambda>piece.
     rbind (board_set b (fst p) (snd p) 0) (\<lambda>b1.
     rbind (board_set b1 (fst q) (snd q) piece) (\<lambda>b2.
     rbind (if \<bar>fst q - fst p\<bar> = 2
            then board_set b2 (fst (midpoint p q)) (snd (midpoint p q)) 0
            else Inr b2) (\<lambda>b3.
       if piece = 1 \<and> fst q = 0 then board_set b3 (fst q) (snd q) 3
       else if piece = 2 \<and> fst q = 7 then board_set b3 (fst q) (snd q) 4
       else Inr b3))))"
  by (simp add: apply_move_def midpoint_def split_beta cong: if_cong)

lemma apply_move_cells:
  assumes b: "board_shape b" and p: "on_board p" and q: "on_board q"
  shows "\<exists>nb. apply_move b (p, q) = Inr nb \<and> board_shape nb \<and>
    (\<forall>x. on_board x \<longrightarrow> cell nb x =
       (if x = q then crown (cell b p) (fst q)
        else if x = p then 0
        else if \<bar>fst q - fst p\<bar> = 2 \<and> x = midpoint p q then 0
        else cell b x))"
proof -
  define m where "m = midpoint p q"
  define piece where "piece = cell b p"
  define b1 where "b1 = set_cell b p 0"
  define b2 where "b2 = set_cell b1 q piece"
  define b3 where "b3 = (if \<bar>fst q - fst p\<bar> = 2 then set_cell b2 m 0 else b2)"
  define b4 where "b4 = (if piece = 1 \<and> fst q = 0 then set_cell b3 q 3
             else if piece = 2 \<and> fst q = 7 then set_cell b3 q 4 else b3)"
  have m: "on_board m" using p q by (simp add: m_def on_board_midpoint)
  have s1: "board_shape b1" using b p by (simp add: b1_def shape_set_cell)
  have s2: "board_shape b2" using s1 q by (simp add: b2_def shape_set_cell)
  have s3: "board_shape b3" using s2 m by (simp add: b3_def shape_set_cell)
  have s4: "board_shape b4" using s3 q by (simp add: b4_def shape_set_cell)
  have e0: "board_get b (fst p) (snd p) = Inr piece"
    using b p by (simp add: board_get_at piece_def)
  have e1: "board_set b (fst p) (snd p) 0 = Inr b1"
    using b p by (simp add: board_set_at b1_def)
  have e2: "board_set b1 (fst q) (snd q) piece = Inr b2"
    using s1 q by (simp add: board_set_at b2_def)
  have e3: "(if \<bar>fst q - fst p\<bar> = 2 then board_set b2 (fst m) (snd m) 0 else Inr b2) = Inr b3"
    unfolding b3_def board_set_at [OF s2 m] by simp
  have e4: "(if piece = 1 \<and> fst q = 0 then board_set b3 (fst q) (snd q) 3
       else if piece = 2 \<and> fst q = 7 then board_set b3 (fst q) (snd q) 4
       else Inr b3) = Inr b4"
    unfolding b4_def board_set_at [OF s3 q] by simp
  have am: "apply_move b (p, q) = Inr b4"
    unfolding apply_move_unfold e0 rbind_Inr e1 e2 m_def [symmetric] e3 e4 ..
  have c1: "cell b1 x = (if x = p then 0 else cell b x)" if "on_board x" for x
    using b p that by (simp add: b1_def cell_set_cell)
  have c2: "cell b2 x = (if x = q then piece else cell b1 x)" if "on_board x" for x
    using s1 q that by (simp add: b2_def cell_set_cell)
  have c3: "cell b3 x = (if \<bar>fst q - fst p\<bar> = 2 \<and> x = m then 0 else cell b2 x)"
    if "on_board x" for x
    using s2 m that by (simp add: b3_def cell_set_cell)
  have c4: "cell b4 x =
      (if x = q \<and> (piece = 1 \<and> fst q = 0 \<or> piece = 2 \<and> fst q = 7)
       then crown piece (fst q) else cell b3 x)"
    if "on_board x" for x
    using s3 q that by (auto simp: b4_def cell_set_cell crown_def)
  have mn: "\<bar>fst q - fst p\<bar> = 2 \<longrightarrow> m \<noteq> p \<and> m \<noteq> q"
    using midpoint_neq [of q p] by (simp add: m_def)
  have cells: "cell b4 x =
       (if x = q then crown piece (fst q)
        else if x = p then 0
        else if \<bar>fst q - fst p\<bar> = 2 \<and> x = m then 0
        else cell b x)" if x: "on_board x" for x
    unfolding c4 [OF x] c3 [OF x] c2 [OF x] c1 [OF x]
    using mn by (auto simp: crown_def)
  show ?thesis using am s4 cells unfolding piece_def m_def by blast
qed

lemma direction_set_eq: "set (direction p) = direction_set p"
  by (auto simp: direction_def direction_set_def)

lemma direction_set_diagonals: "direction_set p \<subseteq> diagonals"
  by (auto simp: direction_set_def diagonals_def)

lemma step_ok_shape:
  assumes "board_shape b"
  shows "step_ok b r c = Inr (on_board (r, c) \<and> cell b (r, c) = 0)"
proof (cases "on_board (r, c)")
  case True
  then have "0 \<le> r \<and> r < 8 \<and> 0 \<le> c \<and> c < 8" by (simp add: on_board_def)
  then show ?thesis using True assms by (simp add: step_ok_def board_get_shape)
next
  case False
  then show ?thesis by (auto simp: step_ok_def on_board_def)
qed

lemma jump_ok_shape:
  assumes "board_shape b" "on_board (jr, jc) \<longrightarrow> on_board (nr, nc)"
  shows "jump_ok b piece nr nc jr jc =
    Inr (on_board (jr, jc) \<and> cell b (nr, nc) \<noteq> 0 \<and> cell b (jr, jc) = 0 \<and>
         \<not> same_color piece (cell b (nr, nc)))"
proof (cases "on_board (jr, jc)")
  case True
  then have n: "on_board (nr, nc)" using assms by simp
  have r: "0 \<le> jr \<and> jr < 8 \<and> 0 \<le> jc \<and> jc < 8" using True by (simp add: on_board_def)
  show ?thesis
    using True by (simp add: jump_ok_def r board_get_shape [OF assms(1) n] board_get_shape [OF assms(1) True])
next
  case False
  then show ?thesis by (auto simp: jump_ok_def on_board_def)
qed

lemma between_on_board:
  "on_board p \<Longrightarrow> d \<in> diagonals \<Longrightarrow> on_board (shift p 2 d) \<Longrightarrow> on_board (shift p 1 d)"
  by (auto simp: on_board_def shift_def diagonals_def)

lemma direction_moves_shape:
  assumes b: "board_shape b" and p: "on_board (r, c)" and d: "d \<in> diagonals"
  shows "\<exists>ms. direction_moves b r c piece d = Inr ms \<and>
               set ms = moves_in_direction b piece (r, c) d"
proof -
  obtain dr dc where dd: "d = (dr, dc)" by (cases d)
  have s1: "shift (r, c) 1 d = (r + dr, c + dc)" by (simp add: shift_def dd)
  have s2: "shift (r, c) 2 d = (r + 2 * dr, c + 2 * dc)" by (simp add: shift_def dd)
  have btw: "on_board (r + 2 * dr, c + 2 * dc) \<longrightarrow> on_board (r + dr, c + dc)"
    using between_on_board [OF p d] by (simp add: s1 s2)
  show ?thesis
    unfolding direction_moves_def dd
    by (auto simp: Let_def step_ok_shape [OF b] jump_ok_shape [OF b btw]
        moves_in_direction_def step_legal_def jump_legal_def s1 [unfolded dd] s2 [unfolded dd]
        dest: btw [rule_format])
qed

lemma direction_loop_shape:
  assumes b: "board_shape b" and p: "on_board (r, c)"
  shows "set ds \<subseteq> diagonals \<Longrightarrow>
    \<exists>ms. direction_loop b r c piece ds moves = Inr ms \<and>
         set ms = set moves \<union> (\<Union>d \<in> set ds. moves_in_direction b piece (r, c) d)"
proof (induction ds arbitrary: moves)
  case Nil
  then show ?case by simp
next
  case (Cons d ds)
  then have d: "d \<in> diagonals" and ds: "set ds \<subseteq> diagonals" by auto
  obtain ms where ms: "direction_moves b r c piece d = Inr ms"
      "set ms = moves_in_direction b piece (r, c) d"
    using direction_moves_shape [OF b p d] by blast
  obtain ms' where ms': "direction_loop b r c piece ds (moves @ ms) = Inr ms'"
      "set ms' = set (moves @ ms) \<union> (\<Union>d \<in> set ds. moves_in_direction b piece (r, c) d)"
    using Cons.IH [OF ds] by blast
  show ?case using ms ms' by auto
qed

lemma possible_moves_for_piece_shape:
  assumes b: "board_shape b" and p: "on_board (r, c)"
  shows "\<exists>ms. possible_moves_for_piece b r c = Inr ms \<and> set ms = moves_from b (r, c)"
  using direction_loop_shape [OF b p, of "direction (cell b (r, c))" "cell b (r, c)" "[]"]
    direction_set_diagonals [of "cell b (r, c)"]
  by (simp add: possible_moves_for_piece_def board_get_shape [OF b p] direction_set_eq moves_from_def)

lemma square_loop_shape:
  assumes b: "board_shape b"
  shows "\<forall>p \<in> set ps. on_board p \<Longrightarrow>
    \<exists>ms. square_loop b side ps moves = Inr ms \<and>
         set ms = set moves \<union> (\<Union>p \<in> {p \<in> set ps. friendly side (cell b p)}. moves_from b p)"
proof (induction ps arbitrary: moves)
  case Nil
  then show ?case by simp
next
  case (Cons p ps)
  obtain r c where rc: "p = (r, c)" by (cases p)
  have p: "on_board (r, c)" and ps: "\<forall>p \<in> set ps. on_board p" using Cons.prems rc by auto
  obtain ms where ms: "possible_moves_for_piece b r c = Inr ms" "set ms = moves_from b (r, c)"
    using possible_moves_for_piece_shape [OF b p] by blast
  show ?case
  proof (cases "friendly side (cell b (r, c))")
    case True
    obtain ms' where ms': "square_loop b side ps (moves @ ms) = Inr ms'"
      "set ms' = set (moves @ ms) \<union> (\<Union>p \<in> {p \<in> set ps. friendly side (cell b p)}. moves_from b p)"
      using Cons.IH [OF ps] by blast
    have "square_loop b side (p # ps) moves = Inr ms'"
      using True ms'(1) ms(1) by (auto simp: rc board_get_shape [OF b p] friendly_def)
    moreover have "set ms' = set moves \<union> (\<Union>p \<in> {q \<in> set (p # ps). friendly side (cell b q)}. moves_from b p)"
      using True ms'(2) ms(2) by (auto simp: rc)
    ultimately show ?thesis by blast
  next
    case False
    obtain ms' where ms': "square_loop b side ps moves = Inr ms'"
      "set ms' = set moves \<union> (\<Union>p \<in> {p \<in> set ps. friendly side (cell b p)}. moves_from b p)"
      using Cons.IH [OF ps] by blast
    have "square_loop b side (p # ps) moves = Inr ms'"
      using False ms'(1) by (auto simp: rc board_get_shape [OF b p] friendly_def)
    moreover have "set ms' = set moves \<union> (\<Union>p \<in> {q \<in> set (p # ps). friendly side (cell b q)}. moves_from b p)"
      using False ms'(2) by (auto simp: rc)
    ultimately show ?thesis by blast
  qed
qed

lemma set_squares: "set squares = {p. on_board p}"
proof -
  have "set squares = {0..7} \<times> {0..7}"
    by (auto simp: squares_def)
  then show ?thesis by (auto simp: on_board_def)
qed

lemma get_all_moves_shape:
  assumes b: "board_shape b"
  shows "\<exists>ms. get_all_moves b side = Inr ms \<and>
    set ms = (\<Union>p \<in> {p. on_board p \<and> friendly side (cell b p)}. moves_from b p)"
  using square_loop_shape [OF b, of squares side "[]"]
  by (simp add: get_all_moves_def set_squares)

section \<open>Capture and promotion\<close>

text \<open>
  C6. For a board of the 8 by 8 shape and a move between two squares of the board whose
  rows differ by exactly 2, \<open>apply_move\<close> returns a board in which the midpoint square
  \<open>((r1 + r2) div 2, (c1 + c2) div 2)\<close> is empty, the origin is empty, and the
  destination holds the piece that stood on the origin, crowned where it reaches its far
  row. Nothing is assumed about what the midpoint held before.
\<close>

theorem apply_move_capture:
  assumes "board_shape b" and "on_board (r1, c1)" and "on_board (r2, c2)"
    and "\<bar>r2 - r1\<bar> = 2"
  shows "\<exists>nb. apply_move b ((r1, c1), (r2, c2)) = Inr nb \<and>
    cell nb ((r1 + r2) div 2, (c1 + c2) div 2) = 0 \<and>
    cell nb (r1, c1) = 0 \<and>
    cell nb (r2, c2) = crown (cell b (r1, c1)) r2"
proof -
  let ?p = "(r1, c1)" and ?q = "(r2, c2)"
  obtain nb where nb: "apply_move b (?p, ?q) = Inr nb"
    and cells: "\<And>x. on_board x \<Longrightarrow> cell nb x =
       (if x = ?q then crown (cell b ?p) (fst ?q)
        else if x = ?p then 0
        else if \<bar>fst ?q - fst ?p\<bar> = 2 \<and> x = midpoint ?p ?q then 0
        else cell b x)"
    using apply_move_cells [OF assms(1-3)] by blast
  have m: "midpoint ?p ?q = ((r1 + r2) div 2, (c1 + c2) div 2)"
    by (simp add: midpoint_def)
  have mb: "on_board (midpoint ?p ?q)"
    using assms by (simp add: on_board_midpoint)
  have rr: "r1 \<noteq> r2" using assms(4) by auto
  have ne: "midpoint ?p ?q \<noteq> ?p" "midpoint ?p ?q \<noteq> ?q"
    using midpoint_neq [of ?q ?p] assms(4) by auto
  have "cell nb (midpoint ?p ?q) = 0"
    using cells [OF mb] ne assms(4) by simp
  moreover have "cell nb ?p = 0"
    using cells [OF assms(2)] rr by simp
  moreover have "cell nb ?q = crown (cell b ?p) r2"
    using cells [OF assms(3)] by simp
  ultimately show ?thesis using nb m by simp
qed

theorem apply_move_capture_witness:
  "\<exists>nb. apply_move capture_board ((3, 3), (1, 1)) = Inr nb \<and>
    cell nb (2, 2) = 0 \<and> cell nb (3, 3) = 0 \<and> cell nb (1, 1) = 1"
proof -
  have h1: "board_shape capture_board"
    by (simp add: board_shape_def capture_board_def)
  have h2: "on_board (3, 3)" and h3: "on_board (1, 1)"
    by (simp_all add: on_board_def)
  have h4: "\<bar>(1::int) - 3\<bar> = 2" by simp
  have c: "crown (cell capture_board (3, 3)) 1 = 1"
    by (simp add: crown_def cell_def capture_board_def)
  show ?thesis
    using apply_move_capture [OF h1 h2 h3 h4] c by simp
qed

text \<open>
  C7. For a board of the 8 by 8 shape and any move between two squares of the board (a
  step, a jump or any other shape), the destination of the returned board holds a red
  king if a red man moved to row 0, a black king if a black man moved to row 7, and in
  every other case exactly the tag that stood on the origin.
\<close>

theorem apply_move_promotion:
  assumes "board_shape b" and "on_board (r1, c1)" and "on_board (r2, c2)"
  shows "\<exists>nb. apply_move b ((r1, c1), (r2, c2)) = Inr nb \<and>
    (cell b (r1, c1) = 1 \<and> r2 = 0 \<longrightarrow> cell nb (r2, c2) = 3) \<and>
    (cell b (r1, c1) = 2 \<and> r2 = 7 \<longrightarrow> cell nb (r2, c2) = 4) \<and>
    (\<not> (cell b (r1, c1) = 1 \<and> r2 = 0) \<and> \<not> (cell b (r1, c1) = 2 \<and> r2 = 7) \<longrightarrow>
       cell nb (r2, c2) = cell b (r1, c1))"
proof -
  let ?p = "(r1, c1)" and ?q = "(r2, c2)"
  obtain nb where nb: "apply_move b (?p, ?q) = Inr nb"
    and cells: "\<And>x. on_board x \<Longrightarrow> cell nb x =
       (if x = ?q then crown (cell b ?p) (fst ?q)
        else if x = ?p then 0
        else if \<bar>fst ?q - fst ?p\<bar> = 2 \<and> x = midpoint ?p ?q then 0
        else cell b x)"
    using apply_move_cells [OF assms] by blast
  have "cell nb ?q = crown (cell b ?p) r2"
    using cells [OF assms(3)] by simp
  then show ?thesis using nb by (auto simp: crown_def)
qed

theorem apply_move_promotion_witness:
  "\<exists>nb. apply_move crowning_board ((1, 1), (0, 0)) = Inr nb \<and> cell nb (0, 0) = 3"
proof -
  have h1: "board_shape crowning_board"
    by (simp add: board_shape_def crowning_board_def)
  have h2: "on_board (1, 1)" and h3: "on_board (0, 0)"
    by (simp_all add: on_board_def)
  have c: "cell crowning_board (1, 1) = 1"
    by (simp add: cell_def crowning_board_def)
  show ?thesis
    using apply_move_promotion [OF h1 h2 h3] c by auto
qed

section \<open>Evaluation and the terminal cases of the search\<close>

lemma evaluate_loop_shape:
  assumes b: "board_shape b"
  shows "\<forall>p \<in> set ps. on_board p \<Longrightarrow>
    evaluate_loop b ps s = Inr (s + sum_list (map (\<lambda>p. piece_value (cell b p)) ps))"
proof (induction ps arbitrary: s)
  case Nil
  then show ?case by simp
next
  case (Cons p ps)
  obtain r c where rc: "p = (r, c)" by (cases p)
  have p: "on_board (r, c)" using Cons.prems rc by simp
  show ?case
    using Cons by (simp add: rc board_get_shape [OF b p])
qed

lemma evaluate_shape: "board_shape b \<Longrightarrow> evaluate b = Inr (material b)"
  by (simp add: evaluate_def material_def evaluate_loop_shape set_squares)

lemma length_squares: "length squares = 64"
  by code_simp

lemma material_upper:
  "sum_list (map (\<lambda>p. piece_value (cell b p)) ps)
     \<le> 8 * int (length (filter (\<lambda>p. cell b p = 1 \<or> cell b p = 3) ps))"
  by (induction ps) (auto simp: piece_value_def)

lemma material_lower:
  "- 8 * int (length (filter (\<lambda>p. cell b p = 2 \<or> cell b p = 4) ps))
     \<le> sum_list (map (\<lambda>p. piece_value (cell b p)) ps)"
  by (induction ps) (auto simp: piece_value_def)

lemma red_count_le: "red_count b \<le> 64"
  using length_filter_le [of "\<lambda>p. cell b p = 1 \<or> cell b p = 3" squares]
  by (simp add: red_count_def length_squares)

lemma black_count_le: "black_count b \<le> 64"
  using length_filter_le [of "\<lambda>p. cell b p = 2 \<or> cell b p = 4" squares]
  by (simp add: black_count_def length_squares)

lemma material_bounds:
  "- 8 * int (black_count b) \<le> material b \<and> material b \<le> 8 * int (red_count b)"
  using material_upper [of b squares] material_lower [of b squares]
  by (simp add: material_def red_count_def black_count_def)

lemma material_explicit:
  "material b = sum_list (map (\<lambda>p. if cell b p = 1 then 5 else if cell b p = 3 then 8
       else if cell b p = 2 then - 5 else if cell b p = 4 then - 8 else 0) squares)"
  by (simp add: material_def piece_value_def)

text \<open>
  C9 (as amended). On a board of the 8 by 8 shape \<open>evaluate\<close> returns the sum over the 64
  squares of the per-cell values: 5 for a red man (tag 1), 8 for a red king (tag 3), -5 for
  a black man (tag 2), -8 for a black king (tag 4) and 0 for anything else. Its absolute
  value is at most 8 * 64 = 512, and at most 8 * 12 = 96 when neither side has more than
  12 pieces; in either case the finite score lies strictly between the two infinite
  sentinels.
\<close>

theorem evaluate_material:
  assumes "board_shape b"
  shows "evaluate b =
      Inr (sum_list (map (\<lambda>p. if cell b p = 1 then 5 else if cell b p = 3 then 8
             else if cell b p = 2 then - 5 else if cell b p = 4 then - 8 else 0) squares)) \<and>
    evaluate b = Inr (material b) \<and>
    \<bar>material b\<bar> \<le> 512 \<and>
    (red_count b \<le> 12 \<and> black_count b \<le> 12 \<longrightarrow> \<bar>material b\<bar> \<le> 96) \<and>
    NegInf < Fin (material b) \<and> Fin (material b) < PosInf"
proof -
  have "\<bar>material b\<bar> \<le> 512"
    using material_bounds [of b] red_count_le [of b] black_count_le [of b] by linarith
  moreover have "\<bar>material b\<bar> \<le> 96" if "red_count b \<le> 12" "black_count b \<le> 12"
    using material_bounds [of b] that by linarith
  moreover have "NegInf < Fin (material b)" "Fin (material b) < PosInf"
    by (simp_all add: less_score_def)
  moreover have "evaluate b = Inr (material b)" using assms by (rule evaluate_shape)
  ultimately show ?thesis using material_explicit [of b] by simp
qed

theorem evaluate_material_witness:
  "evaluate mixed_board = Inr 13 \<and> material mixed_board = 5 + 5 + 8 - 5 \<and>
   \<bar>material mixed_board\<bar> \<le> 96"
proof -
  have h: "board_shape mixed_board"
    by (simp add: board_shape_def mixed_board_def)
  have e: "evaluate mixed_board = Inr 13" by code_simp
  have r: "red_count mixed_board \<le> 12" by code_simp
  have k: "black_count mixed_board \<le> 12" by code_simp
  show ?thesis using evaluate_material [OF h] e r k by simp
qed

text \<open>
  C9 as stated fails: a well-formed board filled with red kings evaluates to 512, which
  exceeds the claimed bound 8 * 12 = 96.
\<close>

theorem evaluate_bound_counterexample:
  "board_shape kings_board \<and> valid_cells kings_board \<and>
   evaluate kings_board = Inr 512 \<and> \<not> \<bar>512 :: int\<bar> \<le> 8 * 12"
proof -
  have "board_shape kings_board" by (simp add: board_shape_def kings_board_def)
  moreover have "valid_cells kings_board" by (simp add: valid_cells_def kings_board_def)
  moreover have "evaluate kings_board = Inr 512" by code_simp
  ultimately show ?thesis by simp
qed

text \<open>
  C3. When the side to move has no legal move and the depth is positive, the search
  returns minus infinity and no move for Red, plus infinity and no move for Black,
  whatever the window, and \<open>find_best_move\<close> returns no move. One call frame suffices.
\<close>

theorem no_moves_terminal:
  assumes "side = ''red'' \<or> side = ''black''"
    and "get_all_moves b side = Inr []"
    and "0 < depth"
  shows "alpha_beta (Suc fuel) b depth alpha beta (side = ''red'') =
           Inr (if side = ''red'' then NegInf else PosInf, None) \<and>
         find_best_move (Suc fuel) b side depth = Inr None"
  using assms by (auto simp: find_best_move_def)

theorem no_moves_terminal_witness:
  "alpha_beta 1 empty_board 3 (Fin 2) (Fin 7) (''black'' = ''red'') = Inr (PosInf, None) \<and>
   find_best_move 1 empty_board ''black'' 3 = Inr None"
proof -
  have h: "get_all_moves empty_board ''black'' = Inr []" by code_simp
  show ?thesis
    using no_moves_terminal [of "''black''" empty_board 3 0 "Fin 2" "Fin 7", OF _ h] by simp
qed








text \<open>
  C2 fails on the code. Red has the single legal move from (3,0) to (2,1); Black answers
  by jumping the man, after which Red has no move. At depth 3 every child of the root
  scores minus infinity, which is not strictly greater than the initial value, so the
  search returns minus infinity with no move and \<open>find_best_move\<close> returns none.
\<close>

theorem forced_loss_returns_no_move:
  "get_all_moves trap_board ''red'' = Inr [((3, 0), (2, 1))] \<and>
   alpha_beta 4 trap_board 3 NegInf PosInf True = Inr (NegInf, None) \<and>
   find_best_move 4 trap_board ''red'' 3 = Inr None"
  by code_simp

section \<open>The generated moves\<close>

lemma valid_cells_iff:
  assumes b: "board_shape b"
  shows "valid_cells b \<longleftrightarrow> (\<forall>x. on_board x \<longrightarrow> 0 \<le> cell b x \<and> cell b x \<le> 4)"
proof
  assume v: "valid_cells b"
  show "\<forall>x. on_board x \<longrightarrow> 0 \<le> cell b x \<and> cell b x \<le> 4"
  proof (intro allI impI)
    fix x assume x: "on_board x"
    have r: "nat (fst x) < length b" using b x by (auto simp: board_shape_def on_board_def)
    then have row: "b ! nat (fst x) \<in> set b" by simp
    then have "length (b ! nat (fst x)) = 8" using b by (simp add: board_shape_def)
    then have "nat (snd x) < length (b ! nat (fst x))" using x by (auto simp: on_board_def)
    then have "b ! nat (fst x) ! nat (snd x) \<in> set (b ! nat (fst x))" by simp
    then show "0 \<le> cell b x \<and> cell b x \<le> 4"
      using v row unfolding valid_cells_def cell_def by blast
  qed
next
  assume c: "\<forall>x. on_board x \<longrightarrow> 0 \<le> cell b x \<and> cell b x \<le> 4"
  show "valid_cells b"
    unfolding valid_cells_def
  proof (intro ballI)
    fix row p assume row: "row \<in> set b" and p: "p \<in> set row"
    obtain i where i: "i < length b" "row = b ! i" using row by (auto simp: in_set_conv_nth)
    obtain j where j: "j < length row" "p = row ! j" using p by (auto simp: in_set_conv_nth)
    have "length row = 8" using b row by (simp add: board_shape_def)
    then have "on_board (int i, int j)" using i j b by (simp add: on_board_def board_shape_def)
    then have "0 \<le> cell b (int i, int j) \<and> cell b (int i, int j) \<le> 4" using c by blast
    then show "0 \<le> p \<and> p \<le> 4" using i j by (simp add: cell_def)
  qed
qed

lemma mem_get_all_moves:
  assumes b: "board_shape b" and ms: "get_all_moves b side = Inr ms"
  shows "mv \<in> set ms \<longleftrightarrow>
    (\<exists>p d. on_board p \<and> friendly side (cell b p) \<and> d \<in> direction_set (cell b p) \<and>
       (step_legal b p d \<and> mv = (p, shift p 1 d) \<or>
        jump_legal b (cell b p) p d \<and> mv = (p, shift p 2 d)))"
proof -
  have "set ms = (\<Union>p \<in> {p. on_board p \<and> friendly side (cell b p)}. moves_from b p)"
    using get_all_moves_shape [OF b, of side] ms by simp
  then show ?thesis
    by (auto simp: moves_from_def moves_in_direction_def)
qed

lemma shift_same: "shift p k d = shift p k d' \<longleftrightarrow> k = 0 \<or> d = d'"
  by (cases d; cases d') (auto simp: shift_def)

lemma shift_one_two:
  "d \<in> diagonals \<Longrightarrow> d' \<in> diagonals \<Longrightarrow> shift p 1 d \<noteq> shift p 2 d'"
  by (auto simp: shift_def diagonals_def)

lemma opposing_iff:
  assumes "friendly side pc" and "0 \<le> m" and "m \<le> 4"
  shows "m \<noteq> 0 \<and> \<not> same_color pc m \<longleftrightarrow> opposing side m"
proof -
  have m: "m = 0 \<or> m = 1 \<or> m = 2 \<or> m = 3 \<or> m = 4" using assms(2,3) by arith
  from assms(1) consider (red) "side = ''red''" "pc = 1 \<or> pc = 3"
    | (black) "side = ''black''" "pc = 2 \<or> pc = 4"
    unfolding friendly_def by blast
  then show ?thesis
  proof cases
    case red
    have "opposing side m \<longleftrightarrow> m = 2 \<or> m = 4" by (simp add: opposing_def red(1))
    moreover have "same_color pc m \<longleftrightarrow> m = 1 \<or> m = 3"
      using red(2) by (auto simp: same_color_def)
    ultimately show ?thesis using m by auto
  next
    case black
    have "opposing side m \<longleftrightarrow> m = 1 \<or> m = 3" by (simp add: opposing_def black(1))
    moreover have "same_color pc m \<longleftrightarrow> m = 2 \<or> m = 4"
      using black(2) by (auto simp: same_color_def)
    ultimately show ?thesis using m by auto
  qed
qed

lemma jump_legal_opposing:
  assumes b: "board_shape b" and v: "valid_cells b" and f: "friendly side (cell b p)"
  shows "jump_legal b (cell b p) p d \<longleftrightarrow>
    on_board (shift p 1 d) \<and> opposing side (cell b (shift p 1 d)) \<and>
    on_board (shift p 2 d) \<and> cell b (shift p 2 d) = 0"
proof (cases "on_board (shift p 1 d)")
  case True
  then have "0 \<le> cell b (shift p 1 d) \<and> cell b (shift p 1 d) \<le> 4"
    using v valid_cells_iff [OF b] by blast
  then show ?thesis
    using opposing_iff [OF f, of "cell b (shift p 1 d)"] True
    by (auto simp: jump_legal_def)
next
  case False
  then show ?thesis by (simp add: jump_legal_def)
qed

text \<open>
  C5. On a board of the 8 by 8 shape whose cells hold the five tags, the move generator
  returns a list with exactly these members. For a diagonal direction \<open>d\<close>, the step from
  \<open>p\<close> to \<open>p + d\<close> is in the list iff \<open>p\<close> is on the board and holds a piece of the side,
  \<open>d\<close> is in the direction set of that piece, and \<open>p + d\<close> is on the board and empty; the
  jump from \<open>p\<close> to \<open>p + 2d\<close> is in the list iff \<open>p\<close> is on the board and holds a piece of
  the side, \<open>d\<close> is in its direction set, \<open>p + d\<close> is on the board and holds a piece of the
  opposing side, and \<open>p + 2d\<close> is on the board and empty. Every member is such a step or
  jump, so its origin holds a friendly piece and its destination is on the board and
  empty.
\<close>

theorem get_all_moves_characterised:
  assumes "board_shape b" and "valid_cells b"
  shows "\<exists>ms. get_all_moves b side = Inr ms \<and>
    (\<forall>p d. d \<in> diagonals \<longrightarrow>
       ((p, shift p 1 d) \<in> set ms \<longleftrightarrow>
          on_board p \<and> friendly side (cell b p) \<and> d \<in> direction_set (cell b p) \<and>
          on_board (shift p 1 d) \<and> cell b (shift p 1 d) = 0) \<and>
       ((p, shift p 2 d) \<in> set ms \<longleftrightarrow>
          on_board p \<and> friendly side (cell b p) \<and> d \<in> direction_set (cell b p) \<and>
          on_board (shift p 1 d) \<and> opposing side (cell b (shift p 1 d)) \<and>
          on_board (shift p 2 d) \<and> cell b (shift p 2 d) = 0)) \<and>
    (\<forall>mv \<in> set ms. \<exists>p d. d \<in> diagonals \<and> (mv = (p, shift p 1 d) \<or> mv = (p, shift p 2 d))) \<and>
    (\<forall>mv \<in> set ms. on_board (fst mv) \<and> friendly side (cell b (fst mv)) \<and>
       on_board (snd mv) \<and> cell b (snd mv) = 0)"
proof -
  obtain ms where ms: "get_all_moves b side = Inr ms"
    using get_all_moves_shape [OF assms(1), of side] by blast
  note mem = mem_get_all_moves [OF assms(1) ms]
  have step: "(p, shift p 1 d) \<in> set ms \<longleftrightarrow>
          on_board p \<and> friendly side (cell b p) \<and> d \<in> direction_set (cell b p) \<and>
          on_board (shift p 1 d) \<and> cell b (shift p 1 d) = 0" if d: "d \<in> diagonals" for p d
  proof
    assume "(p, shift p 1 d) \<in> set ms"
    then obtain p' d' where h: "on_board p'" "friendly side (cell b p')"
        "d' \<in> direction_set (cell b p')"
        "step_legal b p' d' \<and> (p, shift p 1 d) = (p', shift p' 1 d') \<or>
         jump_legal b (cell b p') p' d' \<and> (p, shift p 1 d) = (p', shift p' 2 d')"
      using mem by blast
    have d': "d' \<in> diagonals" using h(3) direction_set_diagonals by blast
    from h(4) have "step_legal b p' d' \<and> p = p' \<and> d = d'"
      using shift_one_two [OF d d', of p'] by (auto simp: shift_same)
    then show "on_board p \<and> friendly side (cell b p) \<and> d \<in> direction_set (cell b p) \<and>
          on_board (shift p 1 d) \<and> cell b (shift p 1 d) = 0"
      using h by (simp add: step_legal_def)
  next
    assume "on_board p \<and> friendly side (cell b p) \<and> d \<in> direction_set (cell b p) \<and>
          on_board (shift p 1 d) \<and> cell b (shift p 1 d) = 0"
    then show "(p, shift p 1 d) \<in> set ms"
      unfolding mem by (intro exI [of _ p] exI [of _ d]) (simp add: step_legal_def)
  qed
  have jump: "(p, shift p 2 d) \<in> set ms \<longleftrightarrow>
          on_board p \<and> friendly side (cell b p) \<and> d \<in> direction_set (cell b p) \<and>
          on_board (shift p 1 d) \<and> opposing side (cell b (shift p 1 d)) \<and>
          on_board (shift p 2 d) \<and> cell b (shift p 2 d) = 0" if d: "d \<in> diagonals" for p d
  proof
    assume "(p, shift p 2 d) \<in> set ms"
    then obtain p' d' where h: "on_board p'" "friendly side (cell b p')"
        "d' \<in> direction_set (cell b p')"
        "step_legal b p' d' \<and> (p, shift p 2 d) = (p', shift p' 1 d') \<or>
         jump_legal b (cell b p') p' d' \<and> (p, shift p 2 d) = (p', shift p' 2 d')"
      using mem by blast
    have d': "d' \<in> diagonals" using h(3) direction_set_diagonals by blast
    from h(4) have "jump_legal b (cell b p') p' d' \<and> p = p' \<and> d = d'"
      using shift_one_two [OF d' d, of p'] by (auto simp: shift_same)
    then show "on_board p \<and> friendly side (cell b p) \<and> d \<in> direction_set (cell b p) \<and>
          on_board (shift p 1 d) \<and> opposing side (cell b (shift p 1 d)) \<and>
          on_board (shift p 2 d) \<and> cell b (shift p 2 d) = 0"
      using h jump_legal_opposing [OF assms, of side p d] by simp
  next
    assume a: "on_board p \<and> friendly side (cell b p) \<and> d \<in> direction_set (cell b p) \<and>
          on_board (shift p 1 d) \<and> opposing side (cell b (shift p 1 d)) \<and>
          on_board (shift p 2 d) \<and> cell b (shift p 2 d) = 0"
    then have "jump_legal b (cell b p) p d"
      using jump_legal_opposing [OF assms, of side p d] by simp
    then show "(p, shift p 2 d) \<in> set ms"
      unfolding mem using a by blast
  qed
  have shape: "\<exists>p d. d \<in> diagonals \<and> (mv = (p, shift p 1 d) \<or> mv = (p, shift p 2 d))"
    if "mv \<in> set ms" for mv
    using that direction_set_diagonals unfolding mem by blast
  have legal: "on_board (fst mv) \<and> friendly side (cell b (fst mv)) \<and>
       on_board (snd mv) \<and> cell b (snd mv) = 0" if "mv \<in> set ms" for mv
    using that unfolding mem by (auto simp: step_legal_def jump_legal_def)
  show ?thesis using ms step jump shape legal by blast
qed

theorem get_all_moves_characterised_witness:
  "\<exists>ms. get_all_moves capture_board ''red'' = Inr ms \<and>
     ((3, 3), (2, 4)) \<in> set ms \<and> ((3, 3), (1, 1)) \<in> set ms \<and> ((3, 3), (2, 2)) \<notin> set ms"
proof -
  have h1: "board_shape capture_board"
    by (simp add: board_shape_def capture_board_def)
  have h2: "valid_cells capture_board"
    by (simp add: valid_cells_def capture_board_def)
  obtain ms where ms: "get_all_moves capture_board ''red'' = Inr ms"
    and c: "\<forall>p d. d \<in> diagonals \<longrightarrow>
       ((p, shift p 1 d) \<in> set ms \<longleftrightarrow>
          on_board p \<and> friendly ''red'' (cell capture_board p) \<and>
          d \<in> direction_set (cell capture_board p) \<and>
          on_board (shift p 1 d) \<and> cell capture_board (shift p 1 d) = 0) \<and>
       ((p, shift p 2 d) \<in> set ms \<longleftrightarrow>
          on_board p \<and> friendly ''red'' (cell capture_board p) \<and>
          d \<in> direction_set (cell capture_board p) \<and>
          on_board (shift p 1 d) \<and> opposing ''red'' (cell capture_board (shift p 1 d)) \<and>
          on_board (shift p 2 d) \<and> cell capture_board (shift p 2 d) = 0)"
    using get_all_moves_characterised [OF h1 h2, of "''red''"] by blast
  have d1: "(-1, 1) \<in> diagonals" and d2: "(-1, -1) \<in> diagonals"
    by (simp_all add: diagonals_def)
  have "((3, 3), shift (3, 3) 1 (-1, 1)) \<in> set ms"
    using c [rule_format, OF d1, of "(3, 3)"]
    by (simp add: shift_def on_board_def cell_def capture_board_def friendly_def direction_set_def)
  moreover have "((3, 3), shift (3, 3) 2 (-1, -1)) \<in> set ms"
    using c [rule_format, OF d2, of "(3, 3)"]
    by (simp add: shift_def on_board_def cell_def capture_board_def friendly_def
        opposing_def direction_set_def)
  moreover have "((3, 3), shift (3, 3) 1 (-1, -1)) \<notin> set ms"
    using c [rule_format, OF d2, of "(3, 3)"]
    by (simp add: shift_def on_board_def cell_def capture_board_def)
  ultimately show ?thesis using ms by (simp add: shift_def)
qed

section \<open>Well-formedness is preserved by generated moves\<close>

lemma distinct_squares: "distinct squares"
  by code_simp

lemma occupied_card: "occupied b = card {x. on_board x \<and> cell b x \<noteq> 0}"
proof -
  have "occupied b = card ({x. cell b x \<noteq> 0} \<inter> set squares)"
    unfolding occupied_def by (rule distinct_length_filter [OF distinct_squares])
  also have "{x. cell b x \<noteq> 0} \<inter> set squares = {x. on_board x \<and> cell b x \<noteq> 0}"
    by (auto simp: set_squares)
  finally show ?thesis .
qed

lemma finite_occupied: "finite {x. on_board x \<and> cell b x \<noteq> 0}"
proof -
  have "{x. on_board x \<and> cell b x \<noteq> 0} \<subseteq> set squares" by (auto simp: set_squares)
  then show ?thesis using finite_subset by blast
qed

lemma card_after_step:
  assumes "finite S" and "p \<in> S" and "q \<notin> S"
  shows "card (insert q (S - {p})) = card S"
proof -
  have "card (insert q (S - {p})) = Suc (card (S - {p}))"
    using assms by (simp add: card_insert_disjoint)
  also have "\<dots> = card S"
    using card_Suc_Diff1 [OF assms(1) assms(2)] by simp
  finally show ?thesis .
qed

lemma card_after_jump:
  assumes "finite S" and "p \<in> S" and "m \<in> S" and "p \<noteq> m" and "q \<notin> S"
  shows "card (insert q (S - {p, m})) + 1 = card S"
proof -
  have f: "finite (S - {m})" and pm: "p \<in> S - {m}" and q: "q \<notin> S - {m}"
    using assms by auto
  have "S - {p, m} = (S - {m}) - {p}" by auto
  then have "card (insert q (S - {p, m})) = card (S - {m})"
    using card_after_step [OF f pm q] by simp
  moreover have "card (S - {m}) + 1 = card S"
    using card_Suc_Diff1 [OF assms(1) assms(3)] by simp
  ultimately show ?thesis by simp
qed

lemma friendly_crown: "friendly side pc \<Longrightarrow> friendly side (crown pc r)"
  unfolding friendly_def crown_def by auto

lemma friendly_valid: "friendly side pc \<Longrightarrow> pc \<noteq> 0 \<and> 0 \<le> pc \<and> pc \<le> 4"
  unfolding friendly_def by auto

lemma midpoint_shift: "midpoint p (shift p 2 d) = shift p 1 d"
  by (simp add: midpoint_def shift_def)

lemma row_delta:
  assumes "d \<in> diagonals"
  shows "\<bar>fst (shift p 1 d) - fst p\<bar> = 1" and "\<bar>fst (shift p 2 d) - fst p\<bar> = 2"
  using assms by (auto simp: shift_def diagonals_def)

lemma apply_generated_step:
  assumes b: "board_shape b" and v: "valid_cells b" and p: "on_board p"
    and f: "friendly side (cell b p)" and d: "d \<in> diagonals" and s: "step_legal b p d"
  shows "\<exists>nb. apply_move b (p, shift p 1 d) = Inr nb \<and> board_shape nb \<and> valid_cells nb \<and>
    friendly side (cell nb (shift p 1 d)) \<and> occupied nb = occupied b"
proof -
  define q where "q = shift p 1 d"
  have q: "on_board q" and qe: "cell b q = 0" using s by (simp_all add: step_legal_def q_def)
  have st: "\<bar>fst q - fst p\<bar> = 1" using row_delta(1) [OF d, of p] by (simp add: q_def)
  have nj: "\<bar>fst q - fst p\<bar> \<noteq> 2" using st by simp
  have pq: "p \<noteq> q" using st by auto
  obtain nb where nb: "apply_move b (p, q) = Inr nb" and sh: "board_shape nb"
    and cells: "\<And>x. on_board x \<Longrightarrow> cell nb x =
       (if x = q then crown (cell b p) (fst q) else if x = p then 0 else cell b x)"
    using apply_move_cells [OF b p q] nj by auto
  have fq: "friendly side (cell nb q)"
    using cells [OF q] friendly_crown [OF f] by simp
  have vb: "\<And>x. on_board x \<Longrightarrow> 0 \<le> cell b x \<and> cell b x \<le> 4"
    using v valid_cells_iff [OF b] by blast
  have "0 \<le> cell nb x \<and> cell nb x \<le> 4" if x: "on_board x" for x
    using cells [OF x] vb [OF x] friendly_valid [OF friendly_crown [OF f, of "fst q"]]
    by (simp split: if_splits)
  then have vn: "valid_cells nb" using valid_cells_iff [OF sh] by blast
  have nz: "(cell nb x \<noteq> 0) = (x = q \<or> x \<noteq> p \<and> cell b x \<noteq> 0)" if x: "on_board x" for x
    using cells [OF x] friendly_valid [OF friendly_crown [OF f, of "fst q"]] qe
    by (simp split: if_splits)
  have S: "{x. on_board x \<and> cell nb x \<noteq> 0} = insert q ({x. on_board x \<and> cell b x \<noteq> 0} - {p})"
    using nz q by auto
  have pin: "p \<in> {x. on_board x \<and> cell b x \<noteq> 0}"
    using p friendly_valid [OF f] by simp
  have qout: "q \<notin> {x. on_board x \<and> cell b x \<noteq> 0}" using qe by simp
  have "occupied nb = occupied b"
    unfolding occupied_card S using card_after_step [OF finite_occupied pin qout] .
  then show ?thesis using nb sh vn fq unfolding q_def by blast
qed

lemma apply_generated_jump:
  assumes b: "board_shape b" and v: "valid_cells b" and p: "on_board p"
    and f: "friendly side (cell b p)" and d: "d \<in> diagonals"
    and j: "jump_legal b (cell b p) p d"
  shows "\<exists>nb. apply_move b (p, shift p 2 d) = Inr nb \<and> board_shape nb \<and> valid_cells nb \<and>
    friendly side (cell nb (shift p 2 d)) \<and> occupied nb + 1 = occupied b"
proof -
  define q where "q = shift p 2 d"
  define m where "m = shift p 1 d"
  have q: "on_board q" and qe: "cell b q = 0" and m: "on_board m" and mo: "cell b m \<noteq> 0"
    using j by (simp_all add: jump_legal_def q_def m_def)
  have jm: "\<bar>fst q - fst p\<bar> = 2" using row_delta(2) [OF d, of p] by (simp add: q_def)
  have mid: "midpoint p q = m" by (simp add: q_def m_def midpoint_shift)
  have pq: "p \<noteq> q" using jm by auto
  have mp: "m \<noteq> p" and mq: "m \<noteq> q" using midpoint_neq [OF jm] mid by auto
  obtain nb where nb: "apply_move b (p, q) = Inr nb" and sh: "board_shape nb"
    and cells: "\<And>x. on_board x \<Longrightarrow> cell nb x =
       (if x = q then crown (cell b p) (fst q) else if x = p then 0
        else if x = m then 0 else cell b x)"
    using apply_move_cells [OF b p q] jm mid by auto
  have fq: "friendly side (cell nb q)"
    using cells [OF q] friendly_crown [OF f] by simp
  have vb: "\<And>x. on_board x \<Longrightarrow> 0 \<le> cell b x \<and> cell b x \<le> 4"
    using v valid_cells_iff [OF b] by blast
  have "0 \<le> cell nb x \<and> cell nb x \<le> 4" if x: "on_board x" for x
    using cells [OF x] vb [OF x] friendly_valid [OF friendly_crown [OF f, of "fst q"]]
    by (simp split: if_splits)
  then have vn: "valid_cells nb" using valid_cells_iff [OF sh] by blast
  have nz: "(cell nb x \<noteq> 0) = (x = q \<or> x \<noteq> p \<and> x \<noteq> m \<and> cell b x \<noteq> 0)"
    if x: "on_board x" for x
    using cells [OF x] friendly_valid [OF friendly_crown [OF f, of "fst q"]] qe
    by (simp split: if_splits)
  have S: "{x. on_board x \<and> cell nb x \<noteq> 0} =
      insert q ({x. on_board x \<and> cell b x \<noteq> 0} - {p, m})"
    using nz q by auto
  have pin: "p \<in> {x. on_board x \<and> cell b x \<noteq> 0}"
    using p friendly_valid [OF f] by simp
  have min: "m \<in> {x. on_board x \<and> cell b x \<noteq> 0}" using m mo by simp
  have qout: "q \<notin> {x. on_board x \<and> cell b x \<noteq> 0}" using qe by simp
  have "occupied nb + 1 = occupied b"
    unfolding occupied_card S
    using card_after_jump [OF finite_occupied pin min mp [symmetric] qout] .
  then show ?thesis using nb sh vn fq unfolding q_def by blast
qed

text \<open>
  C10. On a board of the 8 by 8 shape whose cells hold the five tags, every move returned
  by the move generator for a side is applied without error; the resulting board again
  has the 8 by 8 shape and the five tags in every cell, the piece that moved belongs to
  the side before and after the move, and the number of occupied squares is unchanged
  when the rows of the move differ by 1 (a step) and one less when they differ by 2 (a
  jump); a generated move is always one or the other.
\<close>

theorem generated_move_preserves_board:
  assumes "board_shape b" and "valid_cells b"
    and "get_all_moves b side = Inr ms" and "mv \<in> set ms"
  shows "\<exists>nb. apply_move b mv = Inr nb \<and> board_shape nb \<and> valid_cells nb \<and>
    friendly side (cell b (fst mv)) \<and> friendly side (cell nb (snd mv)) \<and>
    (\<bar>fst (snd mv) - fst (fst mv)\<bar> = 1 \<or> \<bar>fst (snd mv) - fst (fst mv)\<bar> = 2) \<and>
    (\<bar>fst (snd mv) - fst (fst mv)\<bar> = 1 \<longrightarrow> occupied nb = occupied b) \<and>
    (\<bar>fst (snd mv) - fst (fst mv)\<bar> = 2 \<longrightarrow> occupied nb + 1 = occupied b) \<and>
    occupied nb \<le> occupied b"
proof -
  obtain p d where p: "on_board p" and f: "friendly side (cell b p)"
    and dd: "d \<in> direction_set (cell b p)"
    and c: "step_legal b p d \<and> mv = (p, shift p 1 d) \<or>
            jump_legal b (cell b p) p d \<and> mv = (p, shift p 2 d)"
    using mem_get_all_moves [OF assms(1,3), of mv] assms(4) by blast
  have d: "d \<in> diagonals" using dd direction_set_diagonals by blast
  from c show ?thesis
  proof
    assume s: "step_legal b p d \<and> mv = (p, shift p 1 d)"
    then obtain nb where "apply_move b mv = Inr nb" "board_shape nb" "valid_cells nb"
        "friendly side (cell nb (shift p 1 d))" "occupied nb = occupied b"
      using apply_generated_step [OF assms(1,2) p f d] by blast
    then show ?thesis
      using s f row_delta(1) [OF d, of p] by (intro exI [of _ nb]) simp
  next
    assume j: "jump_legal b (cell b p) p d \<and> mv = (p, shift p 2 d)"
    then obtain nb where "apply_move b mv = Inr nb" "board_shape nb" "valid_cells nb"
        "friendly side (cell nb (shift p 2 d))" "occupied nb + 1 = occupied b"
      using apply_generated_jump [OF assms(1,2) p f d] by blast
    then show ?thesis
      using j f row_delta(2) [OF d, of p] by (intro exI [of _ nb]) simp
  qed
qed

theorem generated_move_preserves_board_witness:
  "(\<exists>nb. apply_move capture_board ((3, 3), (1, 1)) = Inr nb \<and> board_shape nb \<and>
     valid_cells nb \<and> friendly ''red'' (cell nb (1, 1)) \<and>
     occupied nb + 1 = occupied capture_board) \<and>
   (\<exists>nb. apply_move capture_board ((3, 3), (2, 4)) = Inr nb \<and> board_shape nb \<and>
     valid_cells nb \<and> friendly ''red'' (cell nb (2, 4)) \<and>
     occupied nb = occupied capture_board)"
proof -
  have h1: "board_shape capture_board"
    by (simp add: board_shape_def capture_board_def)
  have h2: "valid_cells capture_board"
    by (simp add: valid_cells_def capture_board_def)
  have h3: "get_all_moves capture_board ''red'' = Inr [((3, 3), (1, 1)), ((3, 3), (2, 4))]"
    by code_simp
  have h4: "((3, 3), (1, 1)) \<in> set [((3, 3), (1, 1)), ((3, 3), (2, 4 :: int))]"
    by simp
  have h5: "((3, 3), (2, 4)) \<in> set [((3, 3), (1, 1)), ((3, 3), (2, 4 :: int))]"
    by simp
  have j: "\<exists>nb. apply_move capture_board ((3, 3), (1, 1)) = Inr nb \<and> board_shape nb \<and>
     valid_cells nb \<and> friendly ''red'' (cell nb (1, 1)) \<and>
     occupied nb + 1 = occupied capture_board"
    using generated_move_preserves_board [OF h1 h2 h3 h4] by auto
  have s: "\<exists>nb. apply_move capture_board ((3, 3), (2, 4)) = Inr nb \<and> board_shape nb \<and>
     valid_cells nb \<and> friendly ''red'' (cell nb (2, 4)) \<and>
     occupied nb = occupied capture_board"
    using generated_move_preserves_board [OF h1 h2 h3 h5] by auto
  show ?thesis using j s by blast
qed

end
